theory Spec2Isabelle
  imports Main "HOL-Library.Char_ord" "HOL-Library.List_Lexorder" "HOL-Library.Sublist"
begin

section \<open>The arrayset catalog of a checkout (hangar/arrayset.py)\<close>

text \<open>
  The class \<^verbatim>\<open>Arraysets\<close> keeps a dict from arrayset names to accessor objects and
  persists schema records in LMDB environments. The embedding passes the whole state of
  a checkout explicitly: every operation takes the state and returns the result of the
  call (\<open>Inl\<close> for a raised exception, \<open>Inr\<close> for a returned value) together with
  the state after the call, so that what an operation leaves behind when it raises is
  part of the model.
\<close>

subsection \<open>Exceptions\<close>

datatype exc_class =
  PermissionError | TypeError | ValueError | LookupError | KeyError | OtherError

text \<open>One constructor for each message the module builds, with the values it interpolates.\<close>

datatype message =
    NotAllowedInContextManager
      \<comment> \<open>'Not allowed while any arraysets class is opened in a context manager'\<close>
  | NotAllowedUseInitArrayset
      \<comment> \<open>'Not allowed! To add a arrayset use `init_arrayset` method.'\<close>
  | NoneTypeNotCallable
      \<comment> \<open>calling an attribute whose value is None\<close>
  | InvalidName string
  | AlreadyExists string
  | PrototypeNotNdarray
  | PrototypeNotContiguous
  | ShapeDtypeRequired
  | InvalidShape nat "nat list"
  | NoArraysetWithName string
  | NotAllKeysExist "string list"
      \<comment> \<open>f'not all keys {list(mapping.keys())} exist as arrayset names'\<close>
  | CannotRemove string
  | MissingKey string
      \<comment> \<open>the KeyError of a plain dict subscript\<close>
  | External string
      \<comment> \<open>raised by a collaborator (numpy, backend resolver, accessor)\<close>

datatype error = Raise exc_class message

fun exc_class_of :: "error \<Rightarrow> exc_class" where
  "exc_class_of (Raise c m) = c"

fun exc_message_of :: "error \<Rightarrow> message" where
  "exc_message_of (Raise c m) = m"

text \<open>A capability violation is a \<^verbatim>\<open>PermissionError\<close>.\<close>

definition is_capability_violation :: "error \<Rightarrow> bool" where
  "is_capability_violation e = (exc_class_of e = PermissionError)"

subsection \<open>LMDB environments\<close>

text \<open>
  A database is a list of key/value entries in ascending byte order of the keys, each
  key once. Keys and values are byte strings; the order on keys is the lexicographic
  order of \<open>HOL-Library.List_Lexorder\<close> over the byte order of \<open>Char_ord\<close>.
\<close>

type_synonym bytes = string
type_synonym store = "(bytes \<times> bytes) list"

definition store_ok :: "store \<Rightarrow> bool" where
  "store_ok s = sorted_wrt (<) (map fst s)"

definition store_get :: "store \<Rightarrow> bytes \<Rightarrow> bytes option" where
  "store_get s k = map_of s k"

text \<open>
  \<^verbatim>\<open>txn.put(key, value, overwrite=ow)\<close>: returns True when the value was written, False
  when the key was present and \<open>ow\<close> is False (the entry is then left as it is).
\<close>

fun store_put :: "bytes \<Rightarrow> bytes \<Rightarrow> bool \<Rightarrow> store \<Rightarrow> bool \<times> store" where
  "store_put k v ow [] = (True, [(k, v)])"
| "store_put k v ow ((k', v') # s) =
     (if k < k' then (True, (k, v) # (k', v') # s)
      else if k = k' then (if ow then (True, (k, v) # s) else (False, (k', v') # s))
      else (let (b, s') = store_put k v ow s in (b, (k', v') # s')))"

text \<open>\<^verbatim>\<open>txn.delete(key)\<close>: True when the key was there.\<close>

definition store_delete :: "bytes \<Rightarrow> store \<Rightarrow> bool \<times> store" where
  "store_delete k s = (k \<in> fst ` set s, filter (\<lambda>e. fst e \<noteq> k) s)"

text \<open>
  A cursor of a write transaction is the database with a position; a position past the
  last entry is an unpositioned cursor.
  \<^item> \<^verbatim>\<open>cursor.set_range(key)\<close> seeks the first entry whose key is at least \<open>key\<close>
    and returns whether there is one;
  \<^item> \<^verbatim>\<open>cursor.key()\<close> is the current key, the empty byte string when unpositioned;
  \<^item> \<^verbatim>\<open>cursor.delete()\<close> deletes the current entry, leaves the cursor on the entry
    that followed it and returns True; on an unpositioned cursor it returns False.
\<close>

type_synonym cursor = "store \<times> nat"

definition cursor_first :: "store \<Rightarrow> bool \<times> cursor" where
  "cursor_first s = (s \<noteq> [], (s, 0))"

definition cursor_set_range :: "bytes \<Rightarrow> cursor \<Rightarrow> bool \<times> cursor" where
  "cursor_set_range key cur =
     (let s = fst cur; pos = length (takeWhile (\<lambda>e. fst e < key) s)
      in (pos < length s, (s, pos)))"

definition cursor_key :: "cursor \<Rightarrow> bytes" where
  "cursor_key cur = (if snd cur < length (fst cur) then fst (fst cur ! snd cur) else [])"

definition cursor_delete :: "cursor \<Rightarrow> bool \<times> cursor" where
  "cursor_delete cur =
     (if snd cur < length (fst cur)
      then (True, (take (snd cur) (fst cur) @ drop (Suc (snd cur)) (fst cur), snd cur))
      else (False, cur))"

text \<open>
  The loop of \<^verbatim>\<open>Arraysets.delete\<close>:
  \<^verbatim>\<open>
  while recordsExist:
      k = cursor.key()
      if k.startswith(asetRangeKey):
          recordsExist = cursor.delete()
      else:
          recordsExist = False
  \<close>
\<close>

function delete_range_loop :: "bytes \<Rightarrow> bool \<Rightarrow> cursor \<Rightarrow> cursor" where
  "delete_range_loop asetRangeKey recordsExist cur =
     (if recordsExist
      then (let k = cursor_key cur
            in if prefix asetRangeKey k
               then (let (b, cur') = cursor_delete cur
                     in delete_range_loop asetRangeKey b cur')
               else delete_range_loop asetRangeKey False cur)
      else cur)"
  by pat_completeness auto
termination
  by (relation "measure (\<lambda>(rk, b, cur). if b then Suc (length (fst cur)) else 0)")
     (auto simp: cursor_delete_def split: if_splits)

declare delete_range_loop.simps [simp del]

subsection \<open>Arrays, schemas and accessors\<close>

text \<open>A numpy array, as far as this module looks at it: shape, dtype number, the
  C-contiguity flag, and its elements.\<close>

record ndarray =
  arr_shape :: "nat list"
  arr_dtype_num :: nat
  arr_c_contiguous :: bool
  arr_data :: "int list"

definition arr_ndim :: "ndarray \<Rightarrow> nat" where
  "arr_ndim p = length (arr_shape p)"

definition arr_size :: "ndarray \<Rightarrow> nat" where
  "arr_size p = prod_list (arr_shape p)"

text \<open>The arguments \<^verbatim>\<open>prototype\<close> and \<^verbatim>\<open>shape\<close> of \<^verbatim>\<open>init_arrayset\<close> are
  dynamically typed: None, a value of the expected type, or anything else.\<close>

datatype prototype_arg = ProtoNone | ProtoArray ndarray | ProtoOther

datatype shape_arg = ShapeNone | ShapeInt int | ShapeSeq "int list" | ShapeOther

record beopts =
  backend :: string
  opts :: "(string \<times> string) list"

text \<open>The schema record of an arrayset, with the field names of
  \<^verbatim>\<open>arrayset_record_schema_db_val_from_raw_val\<close>.\<close>

record schema_spec =
  schema_hash :: string
  schema_is_var :: bool
  schema_max_shape :: "nat list"
  schema_dtype :: nat
  schema_is_named :: bool
  schema_default_backend :: string
  schema_default_backend_opts :: "(string \<times> string) list"
  schema_contains_subsamples :: bool

datatype variant = Sample | Subsample

text \<open>
  Modelled from the spec: the accessor classes of \<^verbatim>\<open>hangar.columns\<close> are not among the
  source files. An accessor tracks its own nesting counter, incremented on entering and
  decremented on leaving a scoped-access context; it can be opened and closed; and
  \<^verbatim>\<open>add(key, array)\<close> stores one array under a key, from where \<^verbatim>\<open>get(key)\<close>
  reads it back. Whether an accessor accepts an array (for example its shape against
  the schema) is decided by the collaborator \<open>add_check\<close> below.
\<close>

record accessor =
  acc_schema :: schema_spec
  acc_conman_counter :: int
  acc_is_open :: bool
  acc_samples :: "(string \<times> ndarray) list"

definition aset_is_conman :: "accessor \<Rightarrow> bool" where
  "aset_is_conman a = (acc_conman_counter a \<noteq> 0)"

definition aset_enter :: "accessor \<Rightarrow> accessor" where
  "aset_enter a = a\<lparr>acc_conman_counter := acc_conman_counter a + 1\<rparr>"

definition aset_exit :: "accessor \<Rightarrow> accessor" where
  "aset_exit a = a\<lparr>acc_conman_counter := acc_conman_counter a - 1\<rparr>"

definition aset_open :: "accessor \<Rightarrow> accessor" where
  "aset_open a = a\<lparr>acc_is_open := True\<rparr>"

definition aset_close :: "accessor \<Rightarrow> accessor" where
  "aset_close a = a\<lparr>acc_is_open := False\<rparr>"

subsection \<open>Python dicts\<close>

text \<open>A dict is an association list in insertion order. Assigning to a present key
  replaces its value in place, assigning to a new key appends an entry.\<close>

fun dict_set :: "'k \<Rightarrow> 'v \<Rightarrow> ('k \<times> 'v) list \<Rightarrow> ('k \<times> 'v) list" where
  "dict_set k v [] = [(k, v)]"
| "dict_set k v ((k', v') # d) = (if k' = k then (k, v) # d else (k', v') # dict_set k v d)"

definition dict_del :: "'k \<Rightarrow> ('k \<times> 'v) list \<Rightarrow> ('k \<times> 'v) list" where
  "dict_del k d = filter (\<lambda>e. fst e \<noteq> k) d"

definition dict_contains :: "('k \<times> 'v) list \<Rightarrow> 'k \<Rightarrow> bool" where
  "dict_contains d k = (map_of d k \<noteq> None)"

subsection \<open>Collaborators\<close>

text \<open>
  The functions this module imports from the rest of the package and from numpy are
  parameters of the model: name checks, array construction, the backend option
  resolver, the schema codec and key encoders, the accessor generators of the two
  variants, the record query, and the accessor's own check of an added sample. A
  collaborator that can raise returns \<open>Inl\<close> of what it raises.
\<close>

record env =
  is_suitable_user_key :: "string \<Rightarrow> bool"
  is_ascii :: "string \<Rightarrow> bool"
  np_zeros :: "shape_arg \<Rightarrow> nat \<Rightarrow> error + ndarray"
  parse_user_backend_opts :: "string option \<Rightarrow> ndarray \<Rightarrow> bool \<Rightarrow> bool \<Rightarrow> error + beopts"
  schema_hash_digest ::
    "nat list \<Rightarrow> nat \<Rightarrow> nat \<Rightarrow> bool \<Rightarrow> bool \<Rightarrow> string \<Rightarrow> (string \<times> string) list \<Rightarrow> string"
  arrayset_record_schema_db_key_from_raw_key :: "string \<Rightarrow> bytes"
  arrayset_record_schema_db_val_from_raw_val :: "schema_spec \<Rightarrow> bytes"
  arrayset_record_schema_raw_val_from_db_val :: "bytes \<Rightarrow> schema_spec"
  hash_schema_db_key_from_raw_key :: "string \<Rightarrow> bytes"
  arrayset_record_count_range_key :: "string \<Rightarrow> bytes"
  generate_writer :: "variant \<Rightarrow> string \<Rightarrow> string \<Rightarrow> schema_spec \<Rightarrow> error + accessor"
  generate_reader :: "variant \<Rightarrow> string \<Rightarrow> string \<Rightarrow> schema_spec \<Rightarrow> error + accessor"
  schema_specs :: "store \<Rightarrow> (string \<times> schema_spec) list"
  add_check :: "schema_spec \<Rightarrow> string \<Rightarrow> ndarray \<Rightarrow> error option"

text \<open>Modelled from the spec: \<^verbatim>\<open>add(key, array)\<close> and \<^verbatim>\<open>get(key)\<close> of an accessor
  (\<^verbatim>\<open>hangar.columns\<close> is not among the source files).\<close>

definition aset_add :: "env \<Rightarrow> accessor \<Rightarrow> string \<Rightarrow> ndarray \<Rightarrow> error + accessor" where
  "aset_add E a key arr =
     (case add_check E (acc_schema a) key arr of
        Some e \<Rightarrow> Inl e
      | None \<Rightarrow> Inr (a\<lparr>acc_samples := dict_set key arr (acc_samples a)\<rparr>))"

definition aset_get :: "accessor \<Rightarrow> string \<Rightarrow> error + ndarray" where
  "aset_get a key =
     (case map_of (acc_samples a) key of
        Some arr \<Rightarrow> Inr arr
      | None \<Rightarrow> Inl (Raise KeyError (MissingKey key)))"

subsection \<open>The catalog object\<close>

datatype mode = Mode_r | Mode_a

text \<open>
  The instance: its attributes, the names of the attributes that \<^verbatim>\<open>__setup\<close> has set
  to None on the instance (\<open>none_attrs\<close>), and the environments it holds handles to
  (set in write mode only). \<open>stack\<close> is the ExitStack of \<^verbatim>\<open>__enter__\<close>: the names of
  the accessors whose contexts it will leave when closed.
\<close>

record checkout =
  mode :: mode
  repo_pth :: string
  arraysets :: "(string \<times> accessor) list"
  is_conman_counter :: int
  stack :: "string list"
  none_attrs :: "string list"
  hashenv :: "store option"
  dataenv :: "store option"
  stagehashenv :: "store option"

definition setup_attrs :: "mode \<Rightarrow> string list" where
  "setup_attrs m =
     [''_from_commit'', ''_from_staging_area''] @
     (if m = Mode_r
      then [''init_arrayset'', ''delete'', ''multi_add'', ''__delitem__'', ''__setitem__'']
      else [])"

definition Arraysets_init ::
  "mode \<Rightarrow> string \<Rightarrow> (string \<times> accessor) list \<Rightarrow> store option \<Rightarrow> store option \<Rightarrow> store option
     \<Rightarrow> checkout" where
  "Arraysets_init m pth asets henv denv shenv =
     \<lparr>mode = m, repo_pth = pth, arraysets = asets, is_conman_counter = 0, stack = [],
      none_attrs = setup_attrs m,
      hashenv = (if m = Mode_a then henv else None),
      dataenv = (if m = Mode_a then denv else None),
      stagehashenv = (if m = Mode_a then shenv else None)\<rparr>"

text \<open>A catalog as the constructor leaves it: the instance's None attributes are those
  of \<^verbatim>\<open>__setup\<close> for its mode. No operation below changes \<open>mode\<close> or \<open>none_attrs\<close>.\<close>

definition constructed :: "checkout \<Rightarrow> bool" where
  "constructed c = (none_attrs c = setup_attrs (mode c))"

text \<open>\<^verbatim>\<open>obj.name(...)\<close> looks the attribute up on the instance first: when \<^verbatim>\<open>__setup\<close>
  stored None there, the call raises TypeError. The statements \<^verbatim>\<open>obj[k] = v\<close> and
  \<^verbatim>\<open>del obj[k]\<close> look their special method up on the class, whatever the instance
  holds under that name.\<close>

definition attr_is_none :: "checkout \<Rightarrow> string \<Rightarrow> bool" where
  "attr_is_none c nm = (nm \<in> set (none_attrs c))"

definition none_call :: "checkout \<Rightarrow> (error + 'a) \<times> checkout" where
  "none_call c = (Inl (Raise TypeError NoneTypeNotCallable), c)"

subsection \<open>Methods of both modes\<close>

definition contains :: "checkout \<Rightarrow> string \<Rightarrow> bool" where
  "contains c key = dict_contains (arraysets c) key"

definition len :: "checkout \<Rightarrow> nat" where
  "len c = length (arraysets c)"

definition keys :: "checkout \<Rightarrow> string list" where
  "keys c = map fst (arraysets c)"

definition is_conman :: "checkout \<Rightarrow> bool" where
  "is_conman c = (is_conman_counter c \<noteq> 0)"

definition iswriteable :: "checkout \<Rightarrow> bool" where
  "iswriteable c = (if mode c = Mode_r then False else True)"

definition get :: "checkout \<Rightarrow> string \<Rightarrow> error + accessor" where
  "get c name =
     (case map_of (arraysets c) name of
        Some a \<Rightarrow> Inr a
      | None \<Rightarrow> Inl (Raise KeyError (NoArraysetWithName name)))"

text \<open>\<^verbatim>\<open>catalog[key] = value\<close>\<close>

definition setitem :: "checkout \<Rightarrow> string \<Rightarrow> 'v \<Rightarrow> (error + unit) \<times> checkout" where
  "setitem c key val = (Inl (Raise PermissionError NotAllowedUseInitArrayset), c)"

definition any_is_conman :: "checkout \<Rightarrow> bool" where
  "any_is_conman c = (is_conman c \<or> list_ex aset_is_conman (map snd (arraysets c)))"

text \<open>\<^verbatim>\<open>__enter__\<close> enters the context of every accessor, counts the nesting and keeps
  the stack of entered contexts; \<^verbatim>\<open>__exit__\<close> counts down and closes that stack, which
  leaves the context of every accessor registered on it (each accessor is its own
  object, so the order of leaving does not matter to the result).\<close>

definition enter :: "checkout \<Rightarrow> checkout" where
  "enter c =
     c\<lparr>arraysets := map (\<lambda>(n, a). (n, aset_enter a)) (arraysets c),
       is_conman_counter := is_conman_counter c + 1,
       stack := map fst (arraysets c)\<rparr>"

definition exit_cm :: "checkout \<Rightarrow> checkout" where
  "exit_cm c =
     c\<lparr>is_conman_counter := is_conman_counter c - 1,
       arraysets := map (\<lambda>(n, a). (n, if n \<in> set (stack c) then aset_exit a else a)) (arraysets c),
       stack := []\<rparr>"

subsection \<open>Writer-enabled methods\<close>

text \<open>
  \<^verbatim>\<open>multi_add\<close>. \<open>data_name\<close> is the identifier that the one call of
  \<^verbatim>\<open>generate_sample_name()\<close> returns. The mapping is a dict: a list of name/array
  pairs in its iteration order. The loop stops at the first insertion that raises; what
  earlier insertions wrote stays. Leaving the \<^verbatim>\<open>with\<close> block, by return or by
  exception, runs \<^verbatim>\<open>__exit__\<close> when the block had entered the catalog's context.
\<close>

fun multi_add_loop ::
  "env \<Rightarrow> string \<Rightarrow> (string \<times> ndarray) list \<Rightarrow> (string \<times> accessor) list
     \<Rightarrow> error option \<times> (string \<times> accessor) list" where
  "multi_add_loop E data_name [] asets = (None, asets)"
| "multi_add_loop E data_name ((k, v) # rest) asets =
     (case map_of asets k of
        None \<Rightarrow> (Some (Raise KeyError (MissingKey k)), asets)
      | Some a \<Rightarrow>
          (case aset_add E a data_name v of
             Inl e \<Rightarrow> (Some e, asets)
           | Inr a' \<Rightarrow> multi_add_loop E data_name rest (dict_set k a' asets)))"

definition multi_add ::
  "env \<Rightarrow> string \<Rightarrow> checkout \<Rightarrow> (string \<times> ndarray) list \<Rightarrow> (error + string) \<times> checkout" where
  "multi_add E data_name c mapping =
     (let entered = \<not> is_conman c;
          c1 = (if entered then enter c else c);
          leave = (\<lambda>c'. if entered then exit_cm c' else c')
      in if \<not> list_all (\<lambda>k. dict_contains (arraysets c1) k) (map fst mapping)
         then (Inl (Raise KeyError (NotAllKeysExist (map fst mapping))), leave c1)
         else (case multi_add_loop E data_name mapping (arraysets c1) of
                 (Some e, asets) \<Rightarrow> (Inl e, leave (c1\<lparr>arraysets := asets\<rparr>))
               | (None, asets) \<Rightarrow> (Inr data_name, leave (c1\<lparr>arraysets := asets\<rparr>))))"

text \<open>The arguments of \<^verbatim>\<open>init_arrayset\<close>.\<close>

record init_args =
  arg_name :: string
  arg_shape :: shape_arg
  arg_dtype :: "nat option"
  arg_prototype :: prototype_arg
  arg_named_samples :: bool
  arg_variable_shape :: bool
  arg_contains_subsamples :: bool
  arg_backend_opts :: "string option"

text \<open>The sample template: the prototype when one is given, else zeros of the given
  shape and dtype.\<close>

definition resolve_prototype :: "env \<Rightarrow> init_args \<Rightarrow> error + ndarray" where
  "resolve_prototype E a =
     (case arg_prototype a of
        ProtoOther \<Rightarrow> Inl (Raise ValueError PrototypeNotNdarray)
      | ProtoArray p \<Rightarrow>
          (if \<not> arr_c_contiguous p then Inl (Raise ValueError PrototypeNotContiguous)
           else Inr p)
      | ProtoNone \<Rightarrow>
          (if (case arg_shape a of ShapeInt n \<Rightarrow> True | ShapeSeq ns \<Rightarrow> True | _ \<Rightarrow> False)
              \<and> arg_dtype a \<noteq> None
           then np_zeros E (arg_shape a) (the (arg_dtype a))
           else Inl (Raise ValueError ShapeDtypeRequired)))"

text \<open>The \<^verbatim>\<open>try\<close> block of \<^verbatim>\<open>init_arrayset\<close> ("Checks for argument validity"); what it
  raises is raised again unchanged.\<close>

definition check_arguments :: "env \<Rightarrow> checkout \<Rightarrow> init_args \<Rightarrow> error + (ndarray \<times> beopts)" where
  "check_arguments E c a =
     (if (\<not> is_suitable_user_key E (arg_name a)) \<or> (\<not> is_ascii E (arg_name a))
      then Inl (Raise ValueError (InvalidName (arg_name a)))
      else if dict_contains (arraysets c) (arg_name a)
      then Inl (Raise LookupError (AlreadyExists (arg_name a)))
      else (case resolve_prototype E a of
              Inl e \<Rightarrow> Inl e
            | Inr prototype \<Rightarrow>
                (if 0 \<in> set (arr_shape prototype) \<or> arr_ndim prototype > 31
                 then Inl (Raise ValueError
                        (InvalidShape (arr_ndim prototype) (arr_shape prototype)))
                 else (case parse_user_backend_opts E (arg_backend_opts a) prototype
                              (arg_named_samples a) (arg_variable_shape a) of
                         Inl e \<Rightarrow> Inl e
                       | Inr be \<Rightarrow> Inr (prototype, be)))))"

text \<open>"Determine schema format details": the content hash and the schema record.\<close>

definition schema_hash_of :: "env \<Rightarrow> init_args \<Rightarrow> ndarray \<Rightarrow> beopts \<Rightarrow> string" where
  "schema_hash_of E a prototype be =
     schema_hash_digest E (arr_shape prototype) (arr_size prototype) (arr_dtype_num prototype)
       (arg_named_samples a) (arg_variable_shape a) (backend be) (opts be)"

definition asetSchemaVal :: "env \<Rightarrow> init_args \<Rightarrow> ndarray \<Rightarrow> beopts \<Rightarrow> bytes" where
  "asetSchemaVal E a prototype be =
     arrayset_record_schema_db_val_from_raw_val E
       \<lparr>schema_hash = schema_hash_of E a prototype be,
        schema_is_var = arg_variable_shape a,
        schema_max_shape = arr_shape prototype,
        schema_dtype = arr_dtype_num prototype,
        schema_is_named = arg_named_samples a,
        schema_default_backend = backend be,
        schema_default_backend_opts = opts be,
        schema_contains_subsamples = arg_contains_subsamples a\<rparr>"

definition hashSchemaKey :: "env \<Rightarrow> init_args \<Rightarrow> ndarray \<Rightarrow> beopts \<Rightarrow> bytes" where
  "hashSchemaKey E a prototype be =
     hash_schema_db_key_from_raw_key E (schema_hash_of E a prototype be)"

definition attribute_error :: error where
  "attribute_error = Raise OtherError (External ''AttributeError'')"

definition init_arrayset ::
  "env \<Rightarrow> checkout \<Rightarrow> init_args \<Rightarrow> (error + accessor) \<times> checkout" where
  "init_arrayset E c a =
     (if any_is_conman c
      then (Inl (Raise PermissionError NotAllowedInContextManager), c)
      else (case check_arguments E c a of
              Inl e \<Rightarrow> (Inl e, c)
            | Inr (prototype, be) \<Rightarrow>
                (case (dataenv c, hashenv c) of
                   (Some d, Some h) \<Rightarrow>
                     (let asetSchemaKey =
                            arrayset_record_schema_db_key_from_raw_key E (arg_name a);
                          val = asetSchemaVal E a prototype be;
                          d' = snd (store_put asetSchemaKey val True d);
                          h' = snd (store_put (hashSchemaKey E a prototype be) val False h);
                          c1 = c\<lparr>dataenv := Some d', hashenv := Some h'\<rparr>;
                          schemaSpec = arrayset_record_schema_raw_val_from_db_val E val
                      in (case generate_writer E
                                 (if arg_contains_subsamples a then Subsample else Sample)
                                 (arg_name a) (repo_pth c) schemaSpec of
                            Inl e \<Rightarrow> (Inl e, c1)
                          | Inr modifier \<Rightarrow>
                              (let c2 = c1\<lparr>arraysets :=
                                             dict_set (arg_name a) modifier (arraysets c1)\<rparr>
                               in (get c2 (arg_name a), c2))))
                 | _ \<Rightarrow> (Inl attribute_error, c))))"

text \<open>\<^verbatim>\<open>delete\<close>. The write transaction is begun before the name is looked up and is
  committed on every way out; with nothing written it commits nothing.\<close>

definition delete :: "env \<Rightarrow> checkout \<Rightarrow> string \<Rightarrow> (error + string) \<times> checkout" where
  "delete E c aset_name =
     (if any_is_conman c
      then (Inl (Raise PermissionError NotAllowedInContextManager), c)
      else (case dataenv c of
              None \<Rightarrow> (Inl attribute_error, c)
            | Some d \<Rightarrow>
                (if \<not> dict_contains (arraysets c) aset_name
                 then (Inl (Raise KeyError (CannotRemove aset_name)), c)
                 else (let closed = dict_set aset_name
                                      (aset_close (the (map_of (arraysets c) aset_name)))
                                      (arraysets c);
                           asets = dict_del aset_name closed;
                           cur0 = snd (cursor_first d);
                           asetRangeKey = arrayset_record_count_range_key E aset_name;
                           (recordsExist, cur1) = cursor_set_range asetRangeKey cur0;
                           cur2 = delete_range_loop asetRangeKey recordsExist cur1;
                           asetSchemaKey =
                             arrayset_record_schema_db_key_from_raw_key E aset_name;
                           d' = snd (store_delete asetSchemaKey (fst cur2))
                       in (Inr aset_name, c\<lparr>arraysets := asets, dataenv := Some d'\<rparr>)))))"

text \<open>The calls a user writes. \<^verbatim>\<open>catalog.init_arrayset(...)\<close>, \<^verbatim>\<open>catalog.delete(...)\<close>
  and \<^verbatim>\<open>catalog.multi_add(...)\<close> go through the instance attribute; so does the
  \<^verbatim>\<open>self.delete(key)\<close> inside \<^verbatim>\<open>__delitem__\<close>.\<close>

definition call_init_arrayset ::
  "env \<Rightarrow> checkout \<Rightarrow> init_args \<Rightarrow> (error + accessor) \<times> checkout" where
  "call_init_arrayset E c a =
     (if attr_is_none c ''init_arrayset'' then none_call c else init_arrayset E c a)"

definition call_delete :: "env \<Rightarrow> checkout \<Rightarrow> string \<Rightarrow> (error + string) \<times> checkout" where
  "call_delete E c aset_name =
     (if attr_is_none c ''delete'' then none_call c else delete E c aset_name)"

definition call_multi_add ::
  "env \<Rightarrow> string \<Rightarrow> checkout \<Rightarrow> (string \<times> ndarray) list \<Rightarrow> (error + string) \<times> checkout" where
  "call_multi_add E data_name c mapping =
     (if attr_is_none c ''multi_add'' then none_call c else multi_add E data_name c mapping)"

text \<open>\<^verbatim>\<open>del catalog[key]\<close>\<close>

definition delitem :: "env \<Rightarrow> checkout \<Rightarrow> string \<Rightarrow> (error + string) \<times> checkout" where
  "delitem E c key =
     (if any_is_conman c
      then (Inl (Raise PermissionError NotAllowedInContextManager), c)
      else call_delete E c key)"

subsection \<open>Factories\<close>

text \<open>The loop of both factories: one accessor per schema record, in the order of the
  query's mapping; a generator that raises ends the construction.\<close>

fun build_arraysets ::
  "(variant \<Rightarrow> string \<Rightarrow> string \<Rightarrow> schema_spec \<Rightarrow> error + accessor) \<Rightarrow> string
     \<Rightarrow> (string \<times> schema_spec) list \<Rightarrow> (string \<times> accessor) list
     \<Rightarrow> error + (string \<times> accessor) list" where
  "build_arraysets gen pth [] asets = Inr asets"
| "build_arraysets gen pth ((asetName, schemaSpec) # rest) asets =
     (case gen (if schema_contains_subsamples schemaSpec then Subsample else Sample)
             asetName pth schemaSpec of
        Inl e \<Rightarrow> Inl e
      | Inr modifier \<Rightarrow> build_arraysets gen pth rest (dict_set asetName modifier asets))"

definition from_staging_area ::
  "env \<Rightarrow> string \<Rightarrow> store \<Rightarrow> store \<Rightarrow> store \<Rightarrow> error + checkout" where
  "from_staging_area E pth henv stageenv shenv =
     (case build_arraysets (generate_writer E) pth (schema_specs E stageenv) [] of
        Inl e \<Rightarrow> Inl e
      | Inr asets \<Rightarrow> Inr (Arraysets_init Mode_a pth asets (Some henv) (Some stageenv) (Some shenv)))"

definition from_commit :: "env \<Rightarrow> string \<Rightarrow> store \<Rightarrow> store \<Rightarrow> error + checkout" where
  "from_commit E pth henv cmtrefenv =
     (case build_arraysets (generate_reader E) pth (schema_specs E cmtrefenv) [] of
        Inl e \<Rightarrow> Inl e
      | Inr asets \<Rightarrow> Inr (Arraysets_init Mode_r pth asets None None None))"

subsection \<open>A concrete instance\<close>

text \<open>
  One instance of the collaborators, to run the model on examples: names of 1 to 64
  characters from letters, digits, dot, underscore and hyphen; two backends; keys
  \<open>s:name\<close> for schema records and \<open>a:name:\<close> for the record range of an arrayset;
  a schema record encoded as its hash followed by the subsample flag; accessors that
  accept arrays of the schema's shape.
\<close>

definition example_name_chars :: string where
  "example_name_chars =
     ''ABCDEFGHIJKLMNOPQRSTUVWXYZabcdefghijklmnopqrstuvwxyz0123456789._-''"

definition example_zeros :: "shape_arg \<Rightarrow> nat \<Rightarrow> error + ndarray" where
  "example_zeros sh dt =
     (let dims = (case sh of ShapeInt n \<Rightarrow> [n] | ShapeSeq ns \<Rightarrow> ns | _ \<Rightarrow> [])
      in if list_ex (\<lambda>n. n < 0) dims
         then Inl (Raise ValueError (External ''negative dimensions are not allowed''))
         else Inr \<lparr>arr_shape = map nat dims, arr_dtype_num = dt, arr_c_contiguous = True,
                   arr_data = replicate (prod_list (map nat dims)) 0\<rparr>)"

definition example_decode :: "bytes \<Rightarrow> schema_spec" where
  "example_decode v =
     \<lparr>schema_hash = butlast v, schema_is_var = False, schema_max_shape = [2],
      schema_dtype = 7, schema_is_named = True, schema_default_backend = ''00'',
      schema_default_backend_opts = [], schema_contains_subsamples = (last v = CHR ''1'')\<rparr>"

definition example_accessor :: "schema_spec \<Rightarrow> accessor" where
  "example_accessor sp =
     \<lparr>acc_schema = sp, acc_conman_counter = 0, acc_is_open = True, acc_samples = []\<rparr>"

definition example_env :: env where
  "example_env =
     \<lparr>is_suitable_user_key =
        (\<lambda>n. n \<noteq> [] \<and> length n \<le> 64 \<and> list_all (\<lambda>ch. ch \<in> set example_name_chars) n),
      is_ascii = (\<lambda>n. list_all (\<lambda>ch. (of_char ch :: nat) < 128) n),
      np_zeros = example_zeros,
      parse_user_backend_opts =
        (\<lambda>user p named var.
           case user of
             None \<Rightarrow> Inr \<lparr>backend = ''00'', opts = []\<rparr>
           | Some b \<Rightarrow>
               if b = ''00'' \<or> b = ''10'' then Inr \<lparr>backend = b, opts = []\<rparr>
               else Inl (Raise ValueError (External ''invalid backend''))),
      schema_hash_digest =
        (\<lambda>sh sz dt named var be os.
           map (\<lambda>n. char_of n) sh @ [char_of dt] @ (if named then ''N'' else ''n'') @
           (if var then ''V'' else ''v'') @ be),
      arrayset_record_schema_db_key_from_raw_key = (\<lambda>n. ''s:'' @ n),
      arrayset_record_schema_db_val_from_raw_val =
        (\<lambda>sp. schema_hash sp @ (if schema_contains_subsamples sp then ''1'' else ''0'')),
      arrayset_record_schema_raw_val_from_db_val = example_decode,
      hash_schema_db_key_from_raw_key = (\<lambda>h. ''s:'' @ h),
      arrayset_record_count_range_key = (\<lambda>n. ''a:'' @ n @ '':''),
      generate_writer = (\<lambda>v n pth sp. Inr (example_accessor sp)),
      generate_reader = (\<lambda>v n pth sp. Inr (example_accessor sp)),
      schema_specs =
        (\<lambda>st. map (\<lambda>e. (drop 2 (fst e), example_decode (snd e)))
                 (filter (\<lambda>e. prefix ''s:'' (fst e)) st)),
      add_check =
        (\<lambda>sp key arr.
           if arr_shape arr = schema_max_shape sp then None
           else Some (Raise ValueError (External ''shape mismatch'')))\<rparr>"

definition example_array :: ndarray where
  "example_array =
     \<lparr>arr_shape = [2], arr_dtype_num = 7, arr_c_contiguous = True, arr_data = [5, 6]\<rparr>"

text \<open>A staging store with the schema records of \<open>x\<close> and \<open>x2\<close>, two sample records
  of \<open>x\<close> and one of \<open>x2\<close>; the write-mode catalog over it, and a read-mode catalog.\<close>

definition example_stage :: store where
  "example_stage =
     [(''a:x2:0'', ''h0''), (''a:x:0'', ''h1''), (''a:x:1'', ''h2''),
      (''s:x'', ''H0''), (''s:x2'', ''H0'')]"

definition example_arraysets :: "(string \<times> accessor) list" where
  "example_arraysets =
     [(''x'', example_accessor (example_decode ''H0'')),
      (''x2'', example_accessor (example_decode ''H0''))]"

definition example_rw :: checkout where
  "example_rw =
     Arraysets_init Mode_a ''/repo'' example_arraysets
       (Some [(''s:H'', ''H0'')]) (Some example_stage) (Some [])"

definition example_ro :: checkout where
  "example_ro = Arraysets_init Mode_r ''/repo'' example_arraysets None None None"

definition example_args :: init_args where
  "example_args =
     \<lparr>arg_name = ''y'', arg_shape = ShapeNone, arg_dtype = None,
      arg_prototype = ProtoArray example_array, arg_named_samples = True,
      arg_variable_shape = False, arg_contains_subsamples = False,
      arg_backend_opts = None\<rparr>"

section \<open>Properties\<close>

subsection \<open>Basic facts\<close>

lemma constructed_init: "constructed (Arraysets_init m pth asets h d sh)"
  by (simp add: constructed_def Arraysets_init_def)

lemma constructed_example_rw: "constructed example_rw"
  by (simp add: example_rw_def constructed_init)

lemma constructed_example_ro: "constructed example_ro"
  by (simp add: example_ro_def constructed_init)

lemma mode_example_rw: "mode example_rw = Mode_a"
  by (simp add: example_rw_def Arraysets_init_def)

lemma mode_example_ro: "mode example_ro = Mode_r"
  by (simp add: example_ro_def Arraysets_init_def)

lemma read_mode_attrs:
  assumes "constructed c" and "mode c = Mode_r"
  shows "attr_is_none c ''init_arrayset''" and "attr_is_none c ''delete''"
    and "attr_is_none c ''multi_add''"
  using assms by (simp_all add: constructed_def attr_is_none_def setup_attrs_def)

lemma write_mode_attrs:
  assumes "constructed c" and "mode c = Mode_a"
  shows "\<not> attr_is_none c ''init_arrayset''" and "\<not> attr_is_none c ''delete''"
    and "\<not> attr_is_none c ''multi_add''"
  using assms by (simp_all add: constructed_def attr_is_none_def setup_attrs_def)

lemma not_conman_example_rw: "\<not> any_is_conman example_rw"
  by (simp add: any_is_conman_def is_conman_def example_rw_def Arraysets_init_def
      example_arraysets_def example_accessor_def aset_is_conman_def)

lemma not_conman_example_ro: "\<not> any_is_conman example_ro"
  by (simp add: any_is_conman_def is_conman_def example_ro_def Arraysets_init_def
      example_arraysets_def example_accessor_def aset_is_conman_def)

lemma aset_exit_enter: "aset_exit (aset_enter a) = a"
  by (simp add: aset_exit_def aset_enter_def)

lemma exit_enter_entries:
  "fst ` set xs \<subseteq> S \<Longrightarrow>
   map (\<lambda>(n, a). (n, if n \<in> S then aset_exit a else a))
     (map (\<lambda>(n, a). (n, aset_enter a)) xs) = xs"
  by (induction xs) (auto simp: aset_exit_enter)

lemma exit_enter: "exit_cm (enter c) = c\<lparr>stack := []\<rparr>"
proof -
  have "map (\<lambda>(n, a). (n, if n \<in> set (map fst (arraysets c)) then aset_exit a else a))
          (map (\<lambda>(n, a). (n, aset_enter a)) (arraysets c)) = arraysets c"
    by (rule exit_enter_entries) simp
  then show ?thesis
    by (simp add: exit_cm_def enter_def del: map_map set_map)
qed

lemma map_fst_dict_set:
  "map_of d k = Some a \<Longrightarrow> map fst (dict_set k v d) = map fst d"
  by (induction d) (auto split: if_splits)


lemma multi_add_loop_names:
  "map fst (snd (multi_add_loop E dn m asets)) = map fst asets"
proof (induction m arbitrary: asets)
  case Nil
  then show ?case by simp
next
  case (Cons kv m)
  obtain k v where kv: "kv = (k, v)" by (cases kv)
  show ?case
  proof (cases "map_of asets k")
    case None
    then show ?thesis by (simp add: kv)
  next
    case (Some a)
    then show ?thesis
      using Cons.IH [of "dict_set k (projr (aset_add E a dn v)) asets"]
      by (cases "aset_add E a dn v") (simp_all add: kv map_fst_dict_set)
  qed
qed

lemma keys_enter: "keys (enter c) = keys c"
  by (simp add: keys_def enter_def case_prod_unfold comp_def)

lemma keys_exit_cm: "keys (exit_cm c) = keys c"
  by (simp add: keys_def exit_cm_def case_prod_unfold comp_def)

lemma keys_arraysets_update: "keys (c\<lparr>arraysets := xs\<rparr>) = map fst xs"
  by (simp add: keys_def)

lemma keys_multi_add: "keys (snd (multi_add E dn c m)) = keys c"
proof -
  have loop: "map fst (snd (multi_add_loop E dn m (arraysets c'))) = keys c'" for c'
    by (simp add: multi_add_loop_names keys_def)
  show ?thesis
    using loop [of c] loop [of "enter c"]
    by (cases "multi_add_loop E dn m (arraysets c)";
        cases "multi_add_loop E dn m (arraysets (enter c))")
      (auto simp: multi_add_def Let_def keys_exit_cm keys_enter keys_arraysets_update
        split: option.splits)
qed

lemma dict_del_dict_set: "dict_del k (dict_set k v d) = dict_del k d"
  by (induction d) (auto simp: dict_del_def)

lemma names_dict_del: "set (map fst (dict_del k d)) \<subseteq> set (map fst d)"
  by (auto simp: dict_del_def)

lemma arraysets_delete:
  "arraysets (snd (delete E c n)) = arraysets c \<or>
   arraysets (snd (delete E c n)) = dict_del n (arraysets c)"
  by (simp add: delete_def Let_def dict_del_dict_set split: option.splits prod.splits)

lemma keys_delete: "set (keys (snd (delete E c n))) \<subseteq> set (keys c)"
  using arraysets_delete [of E c n] names_dict_del [of n "arraysets c"]
  unfolding keys_def by (elim disjE) simp_all

lemma keys_call_delete: "set (keys (snd (call_delete E c n))) \<subseteq> set (keys c)"
  using keys_delete [of E c n] by (simp add: call_delete_def none_call_def)

lemma keys_delitem: "set (keys (snd (delitem E c n))) \<subseteq> set (keys c)"
  using keys_call_delete [of E c n] by (simp add: delitem_def)

lemma keys_call_multi_add: "keys (snd (call_multi_add E dn c m)) = keys c"
  by (simp add: call_multi_add_def none_call_def keys_multi_add)

subsection \<open>Argument checks of \<^verbatim>\<open>init_arrayset\<close>\<close>



lemma init_arrayset_any_check_fails:
  "check_arguments E c a = Inl e \<Longrightarrow> init_arrayset E c a = (Inl e, c) \<or> any_is_conman c"
  by (simp add: init_arrayset_def)












lemma example_rw_contains:
  "contains example_rw ''x''" "contains example_rw ''x2''" "\<not> contains example_rw ''y''"
  "\<not> contains example_rw ''zz''"
  by (simp_all add: contains_def dict_contains_def example_rw_def Arraysets_init_def
      example_arraysets_def)


subsection \<open>Joint insertion: the loop and the context around it\<close>

lemma dict_contains_iff: "dict_contains d k = (k \<in> set (map fst d))"
  by (simp add: dict_contains_def map_of_eq_None_iff)

lemma arraysets_enter_names: "map fst (arraysets (enter c)) = map fst (arraysets c)"
  using keys_enter [of c] by (simp add: keys_def)

lemma dict_contains_enter:
  "dict_contains (arraysets (enter c)) k = dict_contains (arraysets c) k"
  by (simp only: dict_contains_iff arraysets_enter_names)

lemma multi_add_unknown_key:
  assumes "\<not> list_all (\<lambda>k. contains c k) (map fst m)"
  shows "multi_add E dn c m =
     (Inl (Raise KeyError (NotAllKeysExist (map fst m))),
      c\<lparr>stack := (if is_conman c then stack c else [])\<rparr>)"
proof -
  have "\<not> list_all (\<lambda>k. dict_contains (arraysets c) k) (map fst m)"
    using assms by (simp add: contains_def)
  moreover have "\<not> list_all (\<lambda>k. dict_contains (arraysets (enter c)) k) (map fst m)"
    using assms by (simp add: contains_def dict_contains_enter)
  ultimately show ?thesis
    by (simp add: multi_add_def Let_def exit_enter)
qed

lemma multi_add_empty:
  "multi_add E dn c [] = (Inr dn, c\<lparr>stack := (if is_conman c then stack c else [])\<rparr>)"
proof -
  have "(enter c)\<lparr>arraysets := arraysets (enter c)\<rparr> = enter c"
    by simp
  then show ?thesis
    by (simp add: multi_add_def Let_def exit_enter)
qed











subsection \<open>Reconstruction: the loop over the schema records\<close>

lemma dict_set_new: "k \<notin> fst ` set d \<Longrightarrow> dict_set k v d = d @ [(k, v)]"
  by (induction d) auto

lemma build_arraysets_ok:
  assumes "distinct (map fst specs)"
    and "fst ` set specs \<inter> fst ` set acc = {}"
    and "list_all (\<lambda>(n, sp). \<not> isl (gen (if schema_contains_subsamples sp then Subsample else Sample)
            n pth sp)) specs"
  shows "build_arraysets gen pth specs acc =
           Inr (acc @ map (\<lambda>(n, sp). (n, projr (gen (if schema_contains_subsamples sp
                                                      then Subsample else Sample) n pth sp)))
                        specs)"
  using assms
proof (induction specs arbitrary: acc)
  case Nil
  then show ?case by simp
next
  case (Cons e specs)
  obtain n sp where e: "e = (n, sp)" by (cases e)
  let ?g = "gen (if schema_contains_subsamples sp then Subsample else Sample) n pth sp"
  from Cons.prems(3) e obtain m where m: "?g = Inr m"
    by (cases ?g) auto
  have new: "n \<notin> fst ` set acc"
    using Cons.prems(2) e by auto
  have step: "build_arraysets gen pth (e # specs) acc =
      build_arraysets gen pth specs (acc @ [(n, m)])"
    using m by (simp add: e dict_set_new [OF new])
  have "build_arraysets gen pth specs (acc @ [(n, m)]) =
      Inr ((acc @ [(n, m)]) @ map (\<lambda>(n, sp). (n, projr (gen (if schema_contains_subsamples sp
                                                      then Subsample else Sample) n pth sp)))
                        specs)"
    using Cons.prems e by (intro Cons.IH) auto
  then show ?case
    unfolding step using m by (simp add: e)
qed

lemma build_arraysets_fails:
  assumes "\<not> list_all (\<lambda>(n, sp). \<not> isl (gen (if schema_contains_subsamples sp then Subsample else Sample)
            n pth sp)) specs"
  shows "\<exists>e. build_arraysets gen pth specs acc = Inl e"
  using assms
proof (induction specs arbitrary: acc)
  case Nil
  then show ?case by simp
next
  case (Cons e specs)
  obtain n sp where e: "e = (n, sp)" by (cases e)
  show ?case
  proof (cases "gen (if schema_contains_subsamples sp then Subsample else Sample) n pth sp")
    case (Inl err)
    then show ?thesis by (simp add: e)
  next
    case (Inr m)
    with Cons.prems e have "\<not> list_all (\<lambda>(n, sp). \<not> isl (gen (if schema_contains_subsamples sp
            then Subsample else Sample) n pth sp)) specs"
      by simp
    from Cons.IH [OF this] Inr show ?thesis by (simp add: e)
  qed
qed

lemma map_of_generated:
  assumes "distinct (map fst specs)" and "(n, sp) \<in> set specs"
  shows "map_of (map (\<lambda>(n, sp). (n, f n sp)) specs) n = Some (f n sp)"
  using assms by (induction specs) (auto simp: rev_image_eqI)

lemma catalog_of_generated:
  assumes d: "distinct (map fst specs)"
    and ok: "list_all (\<lambda>(n, sp). \<not> isl (gen (if schema_contains_subsamples sp then Subsample else Sample)
            n pth sp)) specs"
    and asets: "asets = map (\<lambda>(n, sp). (n, projr (gen (if schema_contains_subsamples sp
                                                      then Subsample else Sample) n pth sp))) specs"
    and c: "c = Arraysets_init md pth asets h dd sh"
  shows "mode c = md \<and> constructed c \<and> len c = length specs \<and> keys c = map fst specs
     \<and> (\<forall>(n, sp) \<in> set specs.
           get c n = gen (if schema_contains_subsamples sp then Subsample else Sample) n pth sp)"
proof -
  have g: "get c n = gen (if schema_contains_subsamples sp then Subsample else Sample) n pth sp"
    if "(n, sp) \<in> set specs" for n sp
  proof -
    from ok that have "\<not> isl (gen (if schema_contains_subsamples sp then Subsample else Sample) n pth sp)"
      by (auto simp: list_all_iff)
    then show ?thesis
      using map_of_generated [OF d that,
          of "\<lambda>n sp. projr (gen (if schema_contains_subsamples sp then Subsample else Sample) n pth sp)"]
      by (cases "gen (if schema_contains_subsamples sp then Subsample else Sample) n pth sp")
        (simp_all add: get_def c asets Arraysets_init_def)
  qed
  have "mode c = md" "len c = length specs" "keys c = map fst specs"
    by (simp_all add: c asets Arraysets_init_def len_def keys_def case_prod_unfold comp_def)
  moreover have "constructed c"
    by (simp add: c constructed_init)
  ultimately show ?thesis
    using g by blast
qed

lemma example_specs:
  "schema_specs example_env example_stage =
     [(''x'', example_decode ''H0''), (''x2'', example_decode ''H0'')]"
  by (simp add: example_env_def example_stage_def)

subsection \<open>Stores and the success path of \<^verbatim>\<open>init_arrayset\<close>\<close>

lemma store_put_snd_Nil: "snd (store_put k v ow []) = [(k, v)]"
  by simp





lemma store_get_None_iff: "store_get s k = None \<longleftrightarrow> k \<notin> fst ` set s"
  by (simp add: store_get_def map_of_eq_None_iff)










lemma len_dict_set_new:
  "\<not> dict_contains d k \<Longrightarrow> length (dict_set k v d) = Suc (length d)"
  by (simp add: dict_contains_iff dict_set_new)


subsection \<open>Deletion: the range scan\<close>

lemma prefix_le: "prefix p k \<Longrightarrow> p \<le> (k :: 'a :: linorder list)"
proof (induction p arbitrary: k)
  case Nil
  then show ?case by simp
next
  case (Cons x p)
  then obtain k' where "k = x # k'" "prefix p k'"
    by (cases k) auto
  with Cons.IH show ?case by simp
qed

lemma prefix_between:
  "p \<le> k \<Longrightarrow> k \<le> k'' \<Longrightarrow> prefix p k'' \<Longrightarrow> prefix p (k :: 'a :: linorder list)"
proof (induction p arbitrary: k k'')
  case Nil
  then show ?case by simp
next
  case (Cons x p)
  from Cons.prems(3) obtain t where k'': "k'' = x # t" and pt: "prefix p t"
    by (cases k'') auto
  from Cons.prems(1) obtain y k' where k: "k = y # k'"
    by (cases k) auto
  from Cons.prems(1) k have 1: "x < y \<or> x = y \<and> p \<le> k'" by simp
  from Cons.prems(2) k k'' have 2: "y < x \<or> y = x \<and> k' \<le> t" by simp
  from 1 2 have "x = y" "p \<le> k'" "k' \<le> t" by auto
  with Cons.IH [OF _ _ pt] show ?case
    by (simp add: k)
qed

lemma delete_range_loop_done: "delete_range_loop rk False cur = cur"
  by (simp add: delete_range_loop.simps)

lemma delete_range_loop_scan:
  "delete_range_loop rk b (s, pos) =
     (if b then (take pos s @ dropWhile (\<lambda>e. prefix rk (fst e)) (drop pos s), pos)
      else (s, pos))"
proof (induction "length s - pos" arbitrary: s b rule: less_induct)
  case less
  show ?case
  proof (cases b)
    case False
    then show ?thesis by (simp add: delete_range_loop_done)
  next
    case True
    show ?thesis
    proof (cases "pos < length s")
      case out: False
      then have "delete_range_loop rk True (s, pos) = (s, pos)"
        by (simp add: delete_range_loop.simps [of rk True] cursor_key_def cursor_delete_def
            delete_range_loop_done)
      with out True show ?thesis by simp
    next
      case inside: True
      then have dr: "drop pos s = s ! pos # drop (Suc pos) s"
        by (simp add: Cons_nth_drop_Suc)
      show ?thesis
      proof (cases "prefix rk (fst (s ! pos))")
        case np: False
        then have "delete_range_loop rk True (s, pos) = (s, pos)"
          using inside
          by (simp add: delete_range_loop.simps [of rk True] cursor_key_def
              delete_range_loop_done)
        with np True dr id_take_nth_drop [OF inside] show ?thesis by simp
      next
        case p: True
        let ?s' = "take pos s @ drop (Suc pos) s"
        have step: "delete_range_loop rk True (s, pos) = delete_range_loop rk True (?s', pos)"
          using inside p
          by (simp add: delete_range_loop.simps [of rk True "(s, pos)"] cursor_key_def
              cursor_delete_def)
        have "length ?s' - pos < length s - pos"
          using inside by simp
        from less [OF this, of True]
        have "delete_range_loop rk True (?s', pos) =
            (take pos ?s' @ dropWhile (\<lambda>e. prefix rk (fst e)) (drop pos ?s'), pos)"
          by simp
        moreover have "take pos ?s' = take pos s" "drop pos ?s' = drop (Suc pos) s"
          using inside by simp_all
        ultimately show ?thesis
          using True p dr by (simp add: step)
      qed
    qed
  qed
qed

lemma scan_from_lower_bound:
  fixes s :: "(string \<times> 'v) list" and rk :: string
  assumes "sorted_wrt (<) (map fst s)" and "s = x # s'" and "rk \<le> fst x"
  shows "dropWhile (\<lambda>e. prefix rk (fst e)) s = filter (\<lambda>e. \<not> prefix rk (fst e)) s"
  using assms
proof (induction s arbitrary: x s')
  case Nil
  then show ?case by simp
next
  case (Cons y s)
  then have x: "y = x" "s = s'" by simp_all
  show ?case
  proof (cases "prefix rk (fst y)")
    case True
    show ?thesis
    proof (cases s)
      case Nil
      with True show ?thesis by simp
    next
      case (Cons z s'')
      have "fst y < fst z"
        using Cons.prems(1) Cons by simp
      then have "rk \<le> fst z"
        using Cons.prems(3) x by (metis less_imp_le order_trans)
      moreover have "sorted_wrt (<) (map fst s)"
        using Cons.prems(1) by simp
      ultimately have "dropWhile (\<lambda>e. prefix rk (fst e)) s = filter (\<lambda>e. \<not> prefix rk (fst e)) s"
        using Cons.IH Cons by blast
      with True show ?thesis by simp
    qed
  next
    case False
    have "\<not> prefix rk (fst z)" if "z \<in> set s" for z
    proof
      assume pz: "prefix rk (fst z)"
      have "fst y < fst z"
        using Cons.prems(1) that by auto
      then have "fst y \<le> fst z" by simp
      from prefix_between [OF _ this pz] Cons.prems(3) x False show False
        by simp
    qed
    then have "filter (\<lambda>e. \<not> prefix rk (fst e)) s = s"
      by (simp add: filter_id_conv)
    with False show ?thesis by simp
  qed
qed

lemma range_scan_is_filter:
  fixes s :: "(string \<times> 'v) list" and rk :: string
  assumes "sorted_wrt (<) (map fst s)"
  shows "takeWhile (\<lambda>e. fst e < rk) s
           @ dropWhile (\<lambda>e. prefix rk (fst e)) (dropWhile (\<lambda>e. fst e < rk) s)
         = filter (\<lambda>e. \<not> prefix rk (fst e)) s"
  using assms
proof (induction s)
  case Nil
  then show ?case by simp
next
  case (Cons x s)
  show ?case
  proof (cases "fst x < rk")
    case True
    then have "\<not> prefix rk (fst x)"
      using prefix_le [of rk "fst x"] by auto
    moreover have "sorted_wrt (<) (map fst s)"
      using Cons.prems by simp
    ultimately show ?thesis
      using True Cons.IH by simp
  next
    case False
    then have "rk \<le> fst x" by simp
    from scan_from_lower_bound [OF Cons.prems refl this] False
    show ?thesis by simp
  qed
qed

lemma delete_range_scan:
  assumes "store_ok d"
  shows "fst (delete_range_loop rk (fst (cursor_set_range rk (snd (cursor_first d))))
                (snd (cursor_set_range rk (snd (cursor_first d))))) =
         filter (\<lambda>e. \<not> prefix rk (fst e)) d"
proof -
  let ?pos = "length (takeWhile (\<lambda>e. fst e < rk) d)"
  have sr: "cursor_set_range rk (snd (cursor_first d)) = (?pos < length d, (d, ?pos))"
    by (simp add: cursor_set_range_def cursor_first_def Let_def)
  have tk: "take ?pos d = takeWhile (\<lambda>e. fst e < rk) d"
    by (rule takeWhile_eq_take [symmetric])
  have dr: "drop ?pos d = dropWhile (\<lambda>e. fst e < rk) d"
    by (rule dropWhile_eq_drop [symmetric])
  show ?thesis
  proof (cases "?pos < length d")
    case True
    then show ?thesis
      using range_scan_is_filter [of d rk] assms
      by (simp add: sr delete_range_loop_scan tk dr store_ok_def)
  next
    case False
    then have "takeWhile (\<lambda>e. fst e < rk) d = d"
      using tk by simp
    then have "dropWhile (\<lambda>e. fst e < rk) d = []"
      by (metis append_self_conv takeWhile_dropWhile_id)
    with range_scan_is_filter [of d rk] assms \<open>takeWhile (\<lambda>e. fst e < rk) d = d\<close>
    have "filter (\<lambda>e. \<not> prefix rk (fst e)) d = d"
      by (simp add: store_ok_def)
    with False show ?thesis
      by (simp add: sr delete_range_loop_scan)
  qed
qed

lemma map_of_filter_key:
  "map_of (filter (\<lambda>e. Q (fst e)) d) k = (if Q k then map_of d k else None)"
  by (induction d) auto

lemma store_ok_filter_key: "store_ok d \<Longrightarrow> store_ok (filter (\<lambda>e. Q (fst e)) d)"
proof -
  have "map fst (filter (\<lambda>e. Q (fst e)) d) = filter Q (map fst d)"
    by (simp add: filter_map comp_def)
  then show "store_ok d \<Longrightarrow> store_ok (filter (\<lambda>e. Q (fst e)) d)"
    by (simp add: store_ok_def sorted_wrt_filter)
qed

lemma delete_ok:
  assumes "\<not> any_is_conman c" and "dataenv c = Some d" and "store_ok d"
    and "contains c name"
  shows "delete E c name =
     (Inr name,
      c\<lparr>arraysets := dict_del name (arraysets c),
        dataenv := Some (filter (\<lambda>e. \<not> prefix (arrayset_record_count_range_key E name) (fst e)
                                   \<and> fst e \<noteq> arrayset_record_schema_db_key_from_raw_key E name) d)\<rparr>)"
proof -
  have "filter (\<lambda>e. fst e \<noteq> arrayset_record_schema_db_key_from_raw_key E name)
          (filter (\<lambda>e. \<not> prefix (arrayset_record_count_range_key E name) (fst e)) d) =
        filter (\<lambda>e. \<not> prefix (arrayset_record_count_range_key E name) (fst e)
                                   \<and> fst e \<noteq> arrayset_record_schema_db_key_from_raw_key E name) d"
    by (simp add: conj_commute)
  then show ?thesis
    using assms(1,2,4) delete_range_scan [OF assms(3), of "arrayset_record_count_range_key E name"]
    by (simp add: delete_def Let_def case_prod_unfold contains_def dict_del_dict_set
        store_delete_def)
qed

lemma store_ok_example_stage: "store_ok example_stage"
  by (simp add: store_ok_def example_stage_def)

section \<open>Claims\<close>

subsection \<open>Read mode\<close>

text \<open>
  C1 (as amended). For a catalog constructed in read mode, calling \<^verbatim>\<open>init_arrayset\<close>,
  \<^verbatim>\<open>delete\<close> or \<^verbatim>\<open>multi_add\<close> fails whatever the arguments are, and the catalog
  is unchanged; the failure is the TypeError of calling an attribute that holds None,
  not a PermissionError. Name-keyed deletion (\<^verbatim>\<open>del catalog[name]\<close>) fails too and
  changes nothing: with a PermissionError while a scoped-access context is open
  somewhere in the catalog, with the same TypeError otherwise.
\<close>

theorem read_mode_calls_fail:
  assumes "constructed c" and "mode c = Mode_r"
  shows "call_init_arrayset E c a = (Inl (Raise TypeError NoneTypeNotCallable), c)
       \<and> call_delete E c n = (Inl (Raise TypeError NoneTypeNotCallable), c)
       \<and> call_multi_add E dn c m = (Inl (Raise TypeError NoneTypeNotCallable), c)
       \<and> delitem E c n =
           (Inl (if any_is_conman c then Raise PermissionError NotAllowedInContextManager
                 else Raise TypeError NoneTypeNotCallable), c)"
  using read_mode_attrs [OF assms]
  by (simp add: call_init_arrayset_def call_delete_def call_multi_add_def delitem_def
      none_call_def)

theorem read_mode_calls_fail_witness:
  "call_init_arrayset example_env example_ro example_args =
     (Inl (Raise TypeError NoneTypeNotCallable), example_ro)
   \<and> call_delete example_env example_ro ''x'' =
     (Inl (Raise TypeError NoneTypeNotCallable), example_ro)
   \<and> call_multi_add example_env ''k'' example_ro [(''x'', example_array)] =
     (Inl (Raise TypeError NoneTypeNotCallable), example_ro)
   \<and> delitem example_env example_ro ''x'' =
     (Inl (Raise TypeError NoneTypeNotCallable), example_ro)"
  using read_mode_calls_fail [OF constructed_example_ro mode_example_ro,
      of example_env example_args "''x''" "''k''" "[(''x'', example_array)]"]
    not_conman_example_ro
  by simp

text \<open>C1 as stated fails: in read mode \<^verbatim>\<open>init_arrayset\<close> raises a TypeError, which is
  not a capability violation.\<close>

theorem read_mode_init_arrayset_counterexample:
  "constructed example_ro \<and> mode example_ro = Mode_r
   \<and> fst (call_init_arrayset example_env example_ro example_args) =
       Inl (Raise TypeError NoneTypeNotCallable)
   \<and> is_capability_violation (Raise TypeError NoneTypeNotCallable) = False"
proof -
  have "attr_is_none example_ro ''init_arrayset''"
    by (rule read_mode_attrs(1) [OF constructed_example_ro mode_example_ro])
  then have "fst (call_init_arrayset example_env example_ro example_args) =
      Inl (Raise TypeError NoneTypeNotCallable)"
    by (simp add: call_init_arrayset_def none_call_def)
  moreover have "is_capability_violation (Raise TypeError NoneTypeNotCallable) = False"
    by (simp add: is_capability_violation_def)
  ultimately show ?thesis
    using constructed_example_ro mode_example_ro by simp
qed

subsection \<open>Structural operations under an open context\<close>

text \<open>
  C7. In a write-mode catalog whose own nesting counter or the counter of any of its
  accessors is nonzero, \<^verbatim>\<open>init_arrayset\<close>, \<^verbatim>\<open>delete\<close> and \<^verbatim>\<open>del catalog[name]\<close>
  raise a PermissionError and leave the whole state (the name to accessor mapping and
  every store) as it was.
\<close>

theorem open_context_blocks_structural_ops:
  assumes "constructed c" and "mode c = Mode_a" and "any_is_conman c"
  shows "call_init_arrayset E c a = (Inl (Raise PermissionError NotAllowedInContextManager), c)
       \<and> call_delete E c n = (Inl (Raise PermissionError NotAllowedInContextManager), c)
       \<and> delitem E c n = (Inl (Raise PermissionError NotAllowedInContextManager), c)"
  using write_mode_attrs [OF assms(1,2)] assms(3)
  by (simp add: call_init_arrayset_def call_delete_def delitem_def init_arrayset_def
      delete_def)

theorem open_context_blocks_structural_ops_witness:
  "any_is_conman (enter example_rw)
   \<and> call_init_arrayset example_env (enter example_rw) example_args =
       (Inl (Raise PermissionError NotAllowedInContextManager), enter example_rw)
   \<and> call_delete example_env (enter example_rw) ''x'' =
       (Inl (Raise PermissionError NotAllowedInContextManager), enter example_rw)
   \<and> delitem example_env (enter example_rw) ''x'' =
       (Inl (Raise PermissionError NotAllowedInContextManager), enter example_rw)"
proof -
  have c: "constructed (enter example_rw)"
    using constructed_example_rw by (simp add: constructed_def enter_def)
  have m: "mode (enter example_rw) = Mode_a"
    using mode_example_rw by (simp add: enter_def)
  have k: "any_is_conman (enter example_rw)"
    by (simp add: any_is_conman_def is_conman_def enter_def example_rw_def
        Arraysets_init_def)
  show ?thesis
    using open_context_blocks_structural_ops [OF c m k, of example_env example_args "''x''"] k
    by simp
qed

subsection \<open>Name-keyed assignment\<close>

text \<open>
  C8. \<^verbatim>\<open>catalog[name] = value\<close> raises a PermissionError for every catalog (read or
  write mode), name and value, and leaves the catalog as it was. No other mutator
  introduces a name either: deletion only removes names, and \<^verbatim>\<open>multi_add\<close> and
  entering or leaving a context keep the names; so a new name can only come from
  \<^verbatim>\<open>init_arrayset\<close>.
\<close>

theorem setitem_always_rejected:
  "setitem c key val = (Inl (Raise PermissionError NotAllowedUseInitArrayset), c)
   \<and> set (keys (snd (call_delete E c n))) \<subseteq> set (keys c)
   \<and> set (keys (snd (delitem E c n))) \<subseteq> set (keys c)
   \<and> keys (snd (call_multi_add E dn c m)) = keys c
   \<and> keys (enter c) = keys c \<and> keys (exit_cm c) = keys c"
  by (simp add: setitem_def keys_call_delete keys_delitem keys_call_multi_add keys_enter
      keys_exit_cm)

theorem setitem_always_rejected_witness:
  "setitem example_ro ''y'' example_array =
     (Inl (Raise PermissionError NotAllowedUseInitArrayset), example_ro)
   \<and> setitem example_rw ''y'' example_array =
     (Inl (Raise PermissionError NotAllowedUseInitArrayset), example_rw)"
  using setitem_always_rejected [of example_ro "''y''" example_array]
    setitem_always_rejected [of example_rw "''y''" example_array]
  by simp

subsection \<open>Validation in \<^verbatim>\<open>init_arrayset\<close>\<close>





subsection \<open>Joint insertion\<close>



text \<open>
  C6 (as amended). In a write-mode catalog, when at least one name of the mapping is not
  an arrayset, \<^verbatim>\<open>multi_add\<close> raises a KeyError whose message lists all the names of
  the mapping, in its order: every unknown name is in that list, next to the known ones.
  No insertion is made: the accessors, counters and stores are as before.
\<close>

theorem multi_add_unknown_name:
  assumes "constructed c" and "mode c = Mode_a"
    and "\<not> list_all (\<lambda>k. contains c k) (map fst m)"
  shows "call_multi_add E dn c m =
           (Inl (Raise KeyError (NotAllKeysExist (map fst m))),
            c\<lparr>stack := (if is_conman c then stack c else [])\<rparr>)
       \<and> arraysets (snd (call_multi_add E dn c m)) = arraysets c
       \<and> set (filter (\<lambda>k. \<not> contains c k) (map fst m)) \<subseteq> set (map fst m)"
  using write_mode_attrs(3) [OF assms(1,2)] assms(3)
  by (auto simp: call_multi_add_def multi_add_unknown_key)

theorem multi_add_unknown_name_witness:
  "call_multi_add example_env ''k0'' example_rw [(''x'', example_array), (''zz'', example_array)] =
     (Inl (Raise KeyError (NotAllKeysExist [''x'', ''zz''])), example_rw)"
proof -
  have s: "example_rw\<lparr>stack := (if is_conman example_rw then stack example_rw else [])\<rparr> =
      example_rw"
    by (simp add: example_rw_def Arraysets_init_def)
  show ?thesis
    using multi_add_unknown_name [OF constructed_example_rw mode_example_rw,
        of "[(''x'', example_array), (''zz'', example_array)]" example_env "''k0''"]
      s example_rw_contains
    by simp
qed

text \<open>
  C6 as stated fails: for the mapping with the names \<open>x\<close> (an arrayset) and \<open>zz\<close>
  (unknown), the error lists \<open>x\<close> and \<open>zz\<close>, which is not the set of unknown names.
\<close>

theorem multi_add_reports_known_name_counterexample:
  "fst (call_multi_add example_env ''k0'' example_rw
          [(''x'', example_array), (''zz'', example_array)]) =
     Inl (Raise KeyError (NotAllKeysExist [''x'', ''zz'']))
   \<and> contains example_rw ''x'' \<and> \<not> contains example_rw ''zz''"
proof -
  have "\<not> list_all (\<lambda>k. contains example_rw k)
      (map fst [(''x'', example_array), (''zz'', example_array)])"
    using example_rw_contains by simp
  then have "multi_add example_env ''k0'' example_rw
         [(''x'', example_array), (''zz'', example_array)] =
     (Inl (Raise KeyError (NotAllKeysExist [''x'', ''zz''])),
      example_rw\<lparr>stack := (if is_conman example_rw then stack example_rw else [])\<rparr>)"
    using multi_add_unknown_key by fastforce
  then show ?thesis
    using write_mode_attrs(3) [OF constructed_example_rw mode_example_rw] example_rw_contains
    by (simp add: call_multi_add_def)
qed

text \<open>
  C10. In a write-mode catalog, \<^verbatim>\<open>multi_add\<close> of the empty mapping returns the
  generated identifier without error. The state afterwards is the state before (only the
  ExitStack attribute is the closed, empty stack when the call had to open the context
  itself): accessors, nesting counter and the three stores are unchanged, and an
  identifier under which no accessor held a sample still reads as missing everywhere.
\<close>

theorem multi_add_empty_mapping:
  assumes "constructed c" and "mode c = Mode_a"
  shows "call_multi_add E dn c [] =
           (Inr dn, c\<lparr>stack := (if is_conman c then stack c else [])\<rparr>)
       \<and> arraysets (snd (call_multi_add E dn c [])) = arraysets c
       \<and> is_conman_counter (snd (call_multi_add E dn c [])) = is_conman_counter c
       \<and> dataenv (snd (call_multi_add E dn c [])) = dataenv c
       \<and> hashenv (snd (call_multi_add E dn c [])) = hashenv c
       \<and> stagehashenv (snd (call_multi_add E dn c [])) = stagehashenv c
       \<and> (list_all (\<lambda>(n, a). map_of (acc_samples a) dn = None) (arraysets c) \<longrightarrow>
            list_all (\<lambda>(n, a). aset_get a dn = Inl (Raise KeyError (MissingKey dn)))
              (arraysets (snd (call_multi_add E dn c []))))"
  using write_mode_attrs(3) [OF assms]
  by (auto simp: call_multi_add_def multi_add_empty aset_get_def list_all_iff)

theorem multi_add_empty_mapping_witness:
  "call_multi_add example_env ''k0'' example_rw [] = (Inr ''k0'', example_rw)
   \<and> list_all (\<lambda>(n, a). aset_get a ''k0'' = Inl (Raise KeyError (MissingKey ''k0'')))
       (arraysets (snd (call_multi_add example_env ''k0'' example_rw [])))"
proof -
  have s: "example_rw\<lparr>stack := (if is_conman example_rw then stack example_rw else [])\<rparr> =
      example_rw"
    by (simp add: example_rw_def Arraysets_init_def)
  have f: "list_all (\<lambda>(n, a). map_of (acc_samples a) ''k0'' = None) (arraysets example_rw)"
    by (simp add: example_rw_def Arraysets_init_def example_arraysets_def
        example_accessor_def)
  note T = multi_add_empty_mapping [OF constructed_example_rw mode_example_rw,
      of example_env "''k0''"]
  from T s have e: "call_multi_add example_env ''k0'' example_rw [] = (Inr ''k0'', example_rw)"
    by simp
  from T f have l: "list_all (\<lambda>(n, a). aset_get a ''k0'' = Inl (Raise KeyError (MissingKey ''k0'')))
       (arraysets (snd (call_multi_add example_env ''k0'' example_rw [])))"
    by blast
  show ?thesis using e l by blast
qed

subsection \<open>Reconstruction\<close>

text \<open>
  C9. Let the record query over the staging store yield N schema records under distinct
  names. If the writer generator succeeds on each of them, \<^verbatim>\<open>_from_staging_area\<close>
  returns a write-mode catalog with exactly these N names, in the query's order, and the
  accessor under each name is the one \<^verbatim>\<open>generate_writer\<close> of the Subsample variant
  (descriptor flag \<^verbatim>\<open>contains_subsamples\<close> set) or of the Sample variant (flag not
  set) produced for it. \<^verbatim>\<open>_from_commit\<close> does the same over the commit store with
  \<^verbatim>\<open>generate_reader\<close> and returns a read-mode catalog. If a generator fails on any
  record, the factory fails as a whole: it returns the error and no catalog.
\<close>

theorem factories_build_whole_catalog:
  assumes "schema_specs E stageenv = staged" and "distinct (map fst staged)"
    and "schema_specs E cmtrefenv = committed" and "distinct (map fst committed)"
  shows
    "(list_all (\<lambda>(n, sp). \<not> isl (generate_writer E
          (if schema_contains_subsamples sp then Subsample else Sample) n pth sp)) staged \<longrightarrow>
        (\<exists>c. from_staging_area E pth henv stageenv shenv = Inr c
           \<and> mode c = Mode_a \<and> iswriteable c \<and> constructed c
           \<and> len c = length staged \<and> keys c = map fst staged
           \<and> (\<forall>(n, sp) \<in> set staged. get c n =
                 generate_writer E (if schema_contains_subsamples sp then Subsample else Sample)
                   n pth sp)))
     \<and> (\<not> list_all (\<lambda>(n, sp). \<not> isl (generate_writer E
          (if schema_contains_subsamples sp then Subsample else Sample) n pth sp)) staged \<longrightarrow>
        (\<exists>e. from_staging_area E pth henv stageenv shenv = Inl e))
     \<and> (list_all (\<lambda>(n, sp). \<not> isl (generate_reader E
          (if schema_contains_subsamples sp then Subsample else Sample) n pth sp)) committed \<longrightarrow>
        (\<exists>c. from_commit E pth henv cmtrefenv = Inr c
           \<and> mode c = Mode_r \<and> \<not> iswriteable c \<and> constructed c
           \<and> len c = length committed \<and> keys c = map fst committed
           \<and> (\<forall>(n, sp) \<in> set committed. get c n =
                 generate_reader E (if schema_contains_subsamples sp then Subsample else Sample)
                   n pth sp)))
     \<and> (\<not> list_all (\<lambda>(n, sp). \<not> isl (generate_reader E
          (if schema_contains_subsamples sp then Subsample else Sample) n pth sp)) committed \<longrightarrow>
        (\<exists>e. from_commit E pth henv cmtrefenv = Inl e))"
proof (intro conjI impI)
  assume ok: "list_all (\<lambda>(n, sp). \<not> isl (generate_writer E
          (if schema_contains_subsamples sp then Subsample else Sample) n pth sp)) staged"
  define asets where "asets = map (\<lambda>(n, sp). (n, projr (generate_writer E
      (if schema_contains_subsamples sp then Subsample else Sample) n pth sp))) staged"
  define c where "c = Arraysets_init Mode_a pth asets (Some henv) (Some stageenv) (Some shenv)"
  have "build_arraysets (generate_writer E) pth staged [] = Inr asets"
    using build_arraysets_ok [where gen = "generate_writer E" and pth = pth
        and specs = staged and acc = "[]"] assms(2) ok
    by (simp add: asets_def)
  then have "from_staging_area E pth henv stageenv shenv = Inr c"
    by (simp add: from_staging_area_def assms(1) c_def)
  moreover have "iswriteable c"
    by (simp add: iswriteable_def c_def Arraysets_init_def)
  ultimately show "\<exists>c. from_staging_area E pth henv stageenv shenv = Inr c
           \<and> mode c = Mode_a \<and> iswriteable c \<and> constructed c
           \<and> len c = length staged \<and> keys c = map fst staged
           \<and> (\<forall>(n, sp) \<in> set staged. get c n =
                 generate_writer E (if schema_contains_subsamples sp then Subsample else Sample)
                   n pth sp)"
    using catalog_of_generated [where gen = "generate_writer E" and pth = pth
        and specs = staged and asets = asets and c = c, OF assms(2) ok asets_def c_def]
    by blast
next
  assume "\<not> list_all (\<lambda>(n, sp). \<not> isl (generate_writer E
          (if schema_contains_subsamples sp then Subsample else Sample) n pth sp)) staged"
  from build_arraysets_fails [where gen = "generate_writer E" and pth = pth
      and specs = staged and acc = "[]", OF this]
  show "\<exists>e. from_staging_area E pth henv stageenv shenv = Inl e"
    by (auto simp: from_staging_area_def assms(1))
next
  assume ok: "list_all (\<lambda>(n, sp). \<not> isl (generate_reader E
          (if schema_contains_subsamples sp then Subsample else Sample) n pth sp)) committed"
  define asets where "asets = map (\<lambda>(n, sp). (n, projr (generate_reader E
      (if schema_contains_subsamples sp then Subsample else Sample) n pth sp))) committed"
  define c where "c = Arraysets_init Mode_r pth asets None None None"
  have "build_arraysets (generate_reader E) pth committed [] = Inr asets"
    using build_arraysets_ok [where gen = "generate_reader E" and pth = pth
        and specs = committed and acc = "[]"] assms(4) ok
    by (simp add: asets_def)
  then have "from_commit E pth henv cmtrefenv = Inr c"
    by (simp add: from_commit_def assms(3) c_def)
  moreover have "\<not> iswriteable c"
    by (simp add: iswriteable_def c_def Arraysets_init_def)
  ultimately show "\<exists>c. from_commit E pth henv cmtrefenv = Inr c
           \<and> mode c = Mode_r \<and> \<not> iswriteable c \<and> constructed c
           \<and> len c = length committed \<and> keys c = map fst committed
           \<and> (\<forall>(n, sp) \<in> set committed. get c n =
                 generate_reader E (if schema_contains_subsamples sp then Subsample else Sample)
                   n pth sp)"
    using catalog_of_generated [where gen = "generate_reader E" and pth = pth
        and specs = committed and asets = asets and c = c, OF assms(4) ok asets_def c_def]
    by blast
next
  assume "\<not> list_all (\<lambda>(n, sp). \<not> isl (generate_reader E
          (if schema_contains_subsamples sp then Subsample else Sample) n pth sp)) committed"
  from build_arraysets_fails [where gen = "generate_reader E" and pth = pth
      and specs = committed and acc = "[]", OF this]
  show "\<exists>e. from_commit E pth henv cmtrefenv = Inl e"
    by (auto simp: from_commit_def assms(3))
qed

theorem factories_build_whole_catalog_witness:
  "(\<exists>c. from_staging_area example_env ''/repo'' [(''s:H'', ''H0'')] example_stage [] = Inr c
        \<and> mode c = Mode_a \<and> len c = 2 \<and> keys c = [''x'', ''x2''])
   \<and> (\<exists>c. from_commit example_env ''/repo'' [(''s:H'', ''H0'')] example_stage = Inr c
        \<and> mode c = Mode_r \<and> len c = 2 \<and> keys c = [''x'', ''x2''])
   \<and> (\<exists>e. from_commit
          (example_env\<lparr>generate_reader :=
             (\<lambda>v n pth sp. if n = ''x2'' then Inl (Raise OtherError (External ''no backend''))
                            else Inr (example_accessor sp))\<rparr>)
          ''/repo'' [(''s:H'', ''H0'')] example_stage = Inl e)"
proof -
  let ?specs = "[(''x'', example_decode ''H0''), (''x2'', example_decode ''H0'')]"
  let ?E2 = "example_env\<lparr>generate_reader :=
             (\<lambda>v n pth sp. if n = ''x2'' then Inl (Raise OtherError (External ''no backend''))
                            else Inr (example_accessor sp))\<rparr>"
  have d: "distinct (map fst ?specs)" by simp
  have w: "list_all (\<lambda>(n, sp). \<not> isl (generate_writer example_env
          (if schema_contains_subsamples sp then Subsample else Sample) n ''/repo'' sp)) ?specs"
    by (simp add: example_env_def)
  have r: "list_all (\<lambda>(n, sp). \<not> isl (generate_reader example_env
          (if schema_contains_subsamples sp then Subsample else Sample) n ''/repo'' sp)) ?specs"
    by (simp add: example_env_def)
  have s2: "schema_specs ?E2 example_stage = ?specs"
    using example_specs by (simp add: example_env_def)
  have f: "\<not> list_all (\<lambda>(n, sp). \<not> isl (generate_reader ?E2
          (if schema_contains_subsamples sp then Subsample else Sample) n ''/repo'' sp)) ?specs"
    by simp
  note T = factories_build_whole_catalog [OF example_specs d example_specs d,
      of "''/repo''" "[(''s:H'', ''H0'')]" "[]"]
  note T2 = factories_build_whole_catalog [OF s2 d s2 d, of "''/repo''" "[(''s:H'', ''H0'')]" "[]"]
  from T w have 1: "\<exists>c. from_staging_area example_env ''/repo'' [(''s:H'', ''H0'')] example_stage [] = Inr c
        \<and> mode c = Mode_a \<and> len c = 2 \<and> keys c = [''x'', ''x2'']"
    by auto
  from T r have 2: "\<exists>c. from_commit example_env ''/repo'' [(''s:H'', ''H0'')] example_stage = Inr c
        \<and> mode c = Mode_r \<and> len c = 2 \<and> keys c = [''x'', ''x2'']"
    by auto
  from T2 f have 3: "\<exists>e. from_commit ?E2 ''/repo'' [(''s:H'', ''H0'')] example_stage = Inl e"
    by blast
  show ?thesis by (intro conjI 1 2 3)
qed

subsection \<open>Schema registration and the hash store\<close>



subsection \<open>Deletion\<close>

text \<open>
  C4. In a write-mode catalog with no context open, over a records store in key order,
  \<^verbatim>\<open>delete(name)\<close> of an existing name (and likewise \<^verbatim>\<open>del catalog[name]\<close>) returns
  the name. Afterwards the name is not in the catalog; the names left are the other ones
  in their order, each with the accessor it had. The records store afterwards is the
  store before without the entries whose key starts with the record-count range key of
  the name (the scan from the first key at or above the range key, for as long as the
  prefix matches, removes all of them and nothing else) and without the schema record
  of the name; every other entry keeps its value. In particular the records under the
  range key of another arrayset are untouched whenever neither of the two range keys is
  a prefix of the other, whatever the names share: with range keys \<open>a:x:\<close> and
  \<open>a:x2:\<close>, deleting \<open>x\<close> leaves the records of \<open>x2\<close>. The hash stores are not
  written.
\<close>

theorem delete_removes_arrayset_and_its_records:
  assumes "constructed c" and "mode c = Mode_a" and "\<not> any_is_conman c"
    and "dataenv c = Some d" and "store_ok d" and "contains c name"
  shows "\<exists>c' d'. call_delete E c name = (Inr name, c') \<and> delitem E c name = (Inr name, c')
     \<and> \<not> contains c' name \<and> keys c' = filter (\<lambda>n. n \<noteq> name) (keys c)
     \<and> (\<forall>n. n \<noteq> name \<longrightarrow> get c' n = get c n)
     \<and> dataenv c' = Some d' \<and> store_ok d'
     \<and> d' = filter (\<lambda>e. \<not> prefix (arrayset_record_count_range_key E name) (fst e)
                        \<and> fst e \<noteq> arrayset_record_schema_db_key_from_raw_key E name) d
     \<and> (\<forall>k. store_get d' k =
            (if prefix (arrayset_record_count_range_key E name) k
                \<or> k = arrayset_record_schema_db_key_from_raw_key E name
             then None else store_get d k))
     \<and> (\<forall>other. \<not> prefix (arrayset_record_count_range_key E name)
                      (arrayset_record_count_range_key E other)
               \<and> \<not> prefix (arrayset_record_count_range_key E other)
                      (arrayset_record_count_range_key E name) \<longrightarrow>
            (\<forall>k. prefix (arrayset_record_count_range_key E other) k
                  \<and> k \<noteq> arrayset_record_schema_db_key_from_raw_key E name \<longrightarrow>
                store_get d' k = store_get d k))
     \<and> hashenv c' = hashenv c \<and> stagehashenv c' = stagehashenv c"
proof -
  let ?rk = "arrayset_record_count_range_key E name"
  let ?sk = "arrayset_record_schema_db_key_from_raw_key E name"
  define d' where "d' = filter (\<lambda>e. \<not> prefix ?rk (fst e) \<and> fst e \<noteq> ?sk) d"
  define c' where "c' = c\<lparr>arraysets := dict_del name (arraysets c), dataenv := Some d'\<rparr>"
  have del: "delete E c name = (Inr name, c')"
    unfolding c'_def d'_def by (rule delete_ok [OF assms(3-6)])
  have call: "call_delete E c name = (Inr name, c')"
    using write_mode_attrs(2) [OF assms(1,2)] del by (simp add: call_delete_def)
  have item: "delitem E c name = (Inr name, c')"
    using call assms(3) by (simp add: delitem_def)
  have gone: "\<not> contains c' name"
    by (auto simp: c'_def contains_def dict_contains_iff dict_del_def)
  have ks: "keys c' = filter (\<lambda>n. n \<noteq> name) (keys c)"
    by (simp add: c'_def keys_def dict_del_def filter_map comp_def)
  have others: "\<forall>n. n \<noteq> name \<longrightarrow> get c' n = get c n"
    using map_of_filter_key [of "\<lambda>k. k \<noteq> name" "arraysets c"]
    by (simp add: get_def c'_def dict_del_def)
  have sg: "store_get d' k = (if prefix ?rk k \<or> k = ?sk then None else store_get d k)" for k
    using map_of_filter_key [of "\<lambda>k. \<not> prefix ?rk k \<and> k \<noteq> ?sk" d k]
    by (simp add: d'_def store_get_def)
  have ok': "store_ok d'"
    unfolding d'_def by (rule store_ok_filter_key [OF assms(5)])
  have apart: "store_get d' k = store_get d k"
    if "\<not> prefix ?rk (arrayset_record_count_range_key E other)"
      and "\<not> prefix (arrayset_record_count_range_key E other) ?rk"
      and "prefix (arrayset_record_count_range_key E other) k" and "k \<noteq> ?sk" for other k
  proof -
    have "\<not> prefix ?rk k"
      using prefix_same_cases [OF that(3), of ?rk] that(1,2) by blast
    with that(4) show ?thesis by (simp add: sg)
  qed
  have dd: "dataenv c' = Some d'" and hh: "hashenv c' = hashenv c"
    and ss: "stagehashenv c' = stagehashenv c"
    by (simp_all add: c'_def)
  have sgall: "\<forall>k. store_get d' k = (if prefix ?rk k \<or> k = ?sk then None else store_get d k)"
    using sg by blast
  have ap: "\<forall>other. \<not> prefix ?rk (arrayset_record_count_range_key E other)
               \<and> \<not> prefix (arrayset_record_count_range_key E other) ?rk \<longrightarrow>
            (\<forall>k. prefix (arrayset_record_count_range_key E other) k \<and> k \<noteq> ?sk \<longrightarrow>
                store_get d' k = store_get d k)"
    using apart by blast
  show ?thesis
    by (rule exI [of _ c'], rule exI [of _ d'])
      (intro conjI call item gone ks others dd ok' d'_def sgall ap hh ss)
qed

theorem delete_removes_arrayset_and_its_records_witness:
  "\<exists>c'. call_delete example_env example_rw ''x'' = (Inr ''x'', c')
     \<and> \<not> contains c' ''x'' \<and> keys c' = [''x2'']
     \<and> get c' ''x2'' = get example_rw ''x2''
     \<and> dataenv c' = Some [(''a:x2:0'', ''h0''), (''s:x2'', ''H0'')]"
proof -
  have d: "dataenv example_rw = Some example_stage"
    by (simp add: example_rw_def Arraysets_init_def)
  have k: "keys example_rw = [''x'', ''x2'']"
    by (simp add: keys_def example_rw_def Arraysets_init_def example_arraysets_def)
  have rk: "arrayset_record_count_range_key example_env ''x'' = ''a:x:''"
    and sk: "arrayset_record_schema_db_key_from_raw_key example_env ''x'' = ''s:x''"
    by (simp_all add: example_env_def)
  have f: "filter (\<lambda>e. \<not> prefix ''a:x:'' (fst e) \<and> fst e \<noteq> ''s:x'') example_stage =
      [(''a:x2:0'', ''h0''), (''s:x2'', ''H0'')]"
    by (simp add: example_stage_def)
  from delete_removes_arrayset_and_its_records
    [OF constructed_example_rw mode_example_rw not_conman_example_rw d store_ok_example_stage
      example_rw_contains(1), of example_env]
  obtain c' d' where "call_delete example_env example_rw ''x'' = (Inr ''x'', c')"
    "\<not> contains c' ''x''" "keys c' = filter (\<lambda>n. n \<noteq> ''x'') (keys example_rw)"
    "\<forall>n. n \<noteq> ''x'' \<longrightarrow> get c' n = get example_rw n"
    "dataenv c' = Some d'"
    "d' = filter (\<lambda>e. \<not> prefix (arrayset_record_count_range_key example_env ''x'') (fst e)
                        \<and> fst e \<noteq> arrayset_record_schema_db_key_from_raw_key example_env ''x'')
             example_stage"
    by blast
  then show ?thesis
    using k f by (simp add: rk sk)
qed

end
